theory Spec2Isabelle
  imports Complex_Main "HOL-Library.Sublist" "HOL-Library.AList" "HOL-Library.Log_Nat"
    "HOL-Library.Char_ord" "HOL-Library.List_Lexorder"
begin

section \<open>Strings\<close>

text \<open>
  Python strings are modelled as byte lists (\<open>string\<close>). \<open>str.lower\<close> is modelled on the
  ASCII letters; every phrase searched for below is ASCII and has no letter that a
  non-ASCII character lowers to in front of the phrase's next character, so the search
  results agree.
\<close>

definition lower_char :: "char \<Rightarrow> char" where
  "lower_char c =
     (if of_char c \<ge> (65::nat) \<and> of_char c \<le> (90::nat) then char_of (of_char c + (32::nat)) else c)"

definition lower :: "string \<Rightarrow> string" where
  "lower s = map lower_char s"

text \<open>\<open>sub in s\<close> on strings: \<open>sub\<close> starts at some position of \<open>s\<close>.\<close>

fun py_in :: "string \<Rightarrow> string \<Rightarrow> bool" where
  "py_in sub [] = (sub = [])"
| "py_in sub (c # s) = (prefix sub (c # s) \<or> py_in sub s)"

text \<open>\<open>s.startswith(p)\<close>.\<close>

definition startswith :: "string \<Rightarrow> string \<Rightarrow> bool" where
  "startswith s p = prefix p s"

section \<open>Comment filter\<close>

text \<open>
  \<open>_is_bot_or_mod_comment_or_deleted\<close> of \<^verbatim>\<open>stage2_crawl_posts_pullpush.py\<close>. The body may be
  \<open>None\<close> (a JSON null), which the source turns into the empty string.
\<close>

definition body_lower :: "string option \<Rightarrow> string" where
  "body_lower body = (case body of None \<Rightarrow> [] | Some b \<Rightarrow> (if b = [] then [] else lower b))"

definition is_bot_or_mod_comment_or_deleted :: "string \<Rightarrow> string option \<Rightarrow> bool" where
  "is_bot_or_mod_comment_or_deleted author body =
     (if author = ''AutoModerator'' \<or> author = ''[deleted]'' then True
      else if py_in ''i am a bot'' (body_lower body) \<or> py_in ''moderator'' (body_lower body)
              \<or> py_in ''[deleted]'' (body_lower body) then True
      else False)"

text \<open>\<open>_is_bot_or_mod_comment\<close> of \<^verbatim>\<open>stage2_crawl_posts.py\<close> (nested payloads).\<close>

definition is_bot_or_mod_comment :: "string \<Rightarrow> string option \<Rightarrow> bool" where
  "is_bot_or_mod_comment author body =
     (if author = ''AutoModerator'' then True
      else if py_in ''i am a bot'' (body_lower body) \<or> py_in ''moderator'' (body_lower body) then True
      else False)"

text \<open>
  The specification's reading of the filter: \<open>contains_ci phrase body\<close> says that some
  contiguous part of the body equals the phrase up to letter case.
\<close>

definition contains_ci :: "string \<Rightarrow> string option \<Rightarrow> bool" where
  "contains_ci phrase body =
     (\<exists>pre mid post. (case body of None \<Rightarrow> [] | Some b \<Rightarrow> b) = pre @ mid @ post \<and> lower mid = phrase)"

definition should_filter_spec :: "string \<Rightarrow> string option \<Rightarrow> bool" where
  "should_filter_spec author body =
     (author = ''AutoModerator'' \<or> author = ''[deleted]''
      \<or> contains_ci ''i am a bot'' body \<or> contains_ci ''moderator'' body
      \<or> contains_ci ''[deleted]'' body)"

section \<open>Comment trees\<close>

datatype comment =
  Comment (com_author: string) (com_text: string) (com_score: int) (com_created_time: string)
          (replies: "comment list") (reply_count: nat)

text \<open>\<open>_count_comments\<close> / \<open>_count_comments_recursively\<close>: the loop over a forest.\<close>

fun count_comments :: "comment list \<Rightarrow> nat" where
  "count_comments [] = 0"
| "count_comments (Comment a t s ct rs rc # cs) =
     1 + (if rs \<noteq> [] then count_comments rs else 0) + count_comments cs"

text \<open>Every node of a tree, the tree's root first.\<close>

fun all_nodes :: "comment \<Rightarrow> comment list" where
  "all_nodes (Comment a t s ct rs rc) = Comment a t s ct rs rc # concat (map all_nodes rs)"

definition forest_nodes :: "comment list \<Rightarrow> comment list" where
  "forest_nodes cs = concat (map all_nodes cs)"

text \<open>
  A raw node of the nested payload: \<open>kind\<close>, and the fields of \<open>data\<close>. A \<open>replies\<close> value
  that is not a dictionary (the upstream sends an empty string for a leaf) gives no
  children, as does the empty list here.
\<close>

datatype raw_comment =
  RawComment (kind: string) (raw_author: "string option") (raw_body: "string option")
             (raw_score: int) (raw_created_utc: int) (raw_children: "raw_comment list")

text \<open>\<open>_convert_time\<close>: the local-time formatting is the parameter \<open>strftime\<close>.\<close>

definition convert_time :: "(int \<Rightarrow> string) \<Rightarrow> int \<Rightarrow> string" where
  "convert_time strftime ts = (if ts = 0 then ''N/A'' else strftime ts)"

text \<open>The placeholder text of a comment without body (UTF-8 bytes of the source's literal).\<close>

definition no_text :: string where
  "no_text = [CHR ''['', CHR 0xE6, CHR 0x97, CHR 0xA0, CHR 0xE6, CHR 0x96, CHR 0x87,
              CHR 0xE6, CHR 0x9C, CHR 0xAC, CHR '']'']"

definition text_of_body :: "string option \<Rightarrow> string" where
  "text_of_body body = (case body of None \<Rightarrow> no_text | Some b \<Rightarrow> (if b = [] then no_text else b))"

text \<open>\<open>_parse_comment\<close> of \<^verbatim>\<open>stage2_crawl_posts.py\<close>.\<close>

fun parse_comment :: "(int \<Rightarrow> string) \<Rightarrow> raw_comment \<Rightarrow> comment option" where
  "parse_comment strftime (RawComment k a b sc utc children) =
     (if k = ''more'' then None
      else let author = (case a of None \<Rightarrow> ''[Deleted]'' | Some x \<Rightarrow> x) in
        if is_bot_or_mod_comment author b then None
        else let rs = List.map_filter (\<lambda>x. x) (map (parse_comment strftime) children)
             in Some (Comment author (text_of_body b) sc (convert_time strftime utc) rs (length rs)))"

text \<open>Every node of a tree carries the number of its direct replies.\<close>

fun counts_ok :: "comment \<Rightarrow> bool" where
  "counts_ok (Comment a t s ct rs rc) = (rc = length rs \<and> list_all counts_ok rs)"

definition parse_comments :: "(int \<Rightarrow> string) \<Rightarrow> raw_comment list \<Rightarrow> comment list" where
  "parse_comments strftime comments_tree =
     List.map_filter (\<lambda>x. x) (map (parse_comment strftime) comments_tree)"

subsection \<open>The flat payload\<close>

text \<open>
  A record of the flat comment listing, as \<open>_parse_pullpush_comment\<close> reads it: a missing
  \<open>id\<close> or \<open>parent_id\<close> defaults to the empty string.
\<close>

record pullpush_comment =
  pp_author :: "string option"
  pp_body :: "string option"
  pp_score :: int
  pp_created_utc :: int
  pp_id :: "string option"
  pp_parent_id :: "string option"

record flat_comment =
  fc_author :: string
  fc_text :: string
  fc_score :: int
  fc_created_time :: string
  comment_id :: string
  parent_id :: string

definition parse_pullpush_comment :: "(int \<Rightarrow> string) \<Rightarrow> pullpush_comment \<Rightarrow> flat_comment option" where
  "parse_pullpush_comment strftime cd =
     (let author = (case pp_author cd of None \<Rightarrow> ''[deleted]'' | Some a \<Rightarrow> a) in
      if is_bot_or_mod_comment_or_deleted author (pp_body cd) then None
      else Some \<lparr> fc_author = author, fc_text = text_of_body (pp_body cd), fc_score = pp_score cd,
                  fc_created_time = convert_time strftime (pp_created_utc cd),
                  comment_id = (case pp_id cd of None \<Rightarrow> [] | Some i \<Rightarrow> i),
                  parent_id = (case pp_parent_id cd of None \<Rightarrow> [] | Some i \<Rightarrow> i) \<rparr>)"

text \<open>
  \<open>_build_comment_tree\<close>. The node objects live in \<open>comment_dict\<close>, one per key, so a key is
  the address of its node. The first loop fills the dictionary (insertion order, a repeated
  key overwrites in place); the second appends addresses to \<open>root_comments\<close> and to the
  \<open>replies\<close> lists of nodes that may already hang in the result.
\<close>

record entry =
  e_author :: string
  e_text :: string
  e_score :: int
  e_created_time :: string
  e_parent_id :: string

definition entry_of :: "flat_comment \<Rightarrow> entry" where
  "entry_of c = \<lparr> e_author = fc_author c, e_text = fc_text c, e_score = fc_score c,
                  e_created_time = fc_created_time c, e_parent_id = parent_id c \<rparr>"

fun create_nodes :: "flat_comment list \<Rightarrow> (string \<times> entry) list \<Rightarrow> (string \<times> entry) list" where
  "create_nodes [] d = d"
| "create_nodes (c # cs) d =
     (if comment_id c = [] then create_nodes cs d
      else create_nodes cs (AList.update (comment_id c) (entry_of c) d))"

record links =
  replies_of :: "string \<Rightarrow> string list"
  root_comments :: "string list"

definition link_one :: "(string \<times> entry) list \<Rightarrow> string \<times> entry \<Rightarrow> links \<Rightarrow> links" where
  "link_one comment_dict item h =
     (let cid = fst item; pid = e_parent_id (snd item) in
      if startswith pid ''t3_'' then h\<lparr>root_comments := root_comments h @ [cid]\<rparr>
      else if startswith pid ''t1_'' then
        (let parent_comment_id = drop 3 pid in
         if parent_comment_id \<in> set (map fst comment_dict)
         then h\<lparr>replies_of := (replies_of h)(parent_comment_id := replies_of h parent_comment_id @ [cid])\<rparr>
         else h\<lparr>root_comments := root_comments h @ [cid]\<rparr>)
      else h)"

definition link_all :: "(string \<times> entry) list \<Rightarrow> links" where
  "link_all comment_dict =
     fold (link_one comment_dict) comment_dict \<lparr>replies_of = (\<lambda>_. []), root_comments = []\<rparr>"

text \<open>
  The value of the object at an address: the node with the values of its replies. The
  recursion follows the \<open>replies\<close> references and has a fuel; \<open>None\<close> stands for a descent
  that does not end.
\<close>

fun readout :: "nat \<Rightarrow> (string \<times> entry) list \<Rightarrow> links \<Rightarrow> string \<Rightarrow> comment option" where
  "readout 0 d h cid = None"
| "readout (Suc n) d h cid =
     (case map_of d cid of
        None \<Rightarrow> None
      | Some e \<Rightarrow>
          (case those (map (readout n d h) (replies_of h cid)) of
             None \<Rightarrow> None
           | Some rs \<Rightarrow> Some (Comment (e_author e) (e_text e) (e_score e) (e_created_time e) rs 0)))"

fun update_counts :: "comment \<Rightarrow> comment" where
  "update_counts (Comment a t s ct rs rc) = Comment a t s ct (map update_counts rs) (length rs)"

definition build_comment_tree :: "flat_comment list \<Rightarrow> string \<Rightarrow> comment list option" where
  "build_comment_tree flat_comments post_id =
     (let comment_dict = create_nodes flat_comments [];
          h = link_all comment_dict
      in case those (map (readout (length comment_dict) comment_dict h) (root_comments h)) of
           None \<Rightarrow> None
         | Some roots \<Rightarrow> Some (map update_counts roots))"

text \<open>
  \<open>_fetch_all_comments_from_pullpush\<close> after the request: an exception in the tree builder
  gives the empty list.
\<close>

definition fetch_all_comments :: "(int \<Rightarrow> string) \<Rightarrow> pullpush_comment list \<Rightarrow> string \<Rightarrow> comment list" where
  "fetch_all_comments strftime data post_id =
     (case build_comment_tree (List.map_filter (parse_pullpush_comment strftime) data) post_id of
        None \<Rightarrow> []
      | Some t \<Rightarrow> t)"

section \<open>Quota partition of the frontier collector\<close>

text \<open>
  \<open>RedditCrawler.__init__\<close> and the head of \<open>collect_post_urls\<close> in \<^verbatim>\<open>crawler.py\<close>. A float
  is the rational it denotes; \<open>binary64\<close> rounds a rational to the nearest double (ties to
  even, normal range), so \<open>0.65\<close> is \<open>binary64 (65 / 100)\<close> and a float operation is the exact
  operation followed by \<open>binary64\<close>.
\<close>

datatype py_error = ZeroDivisionError

definition round_half_even :: "rat \<Rightarrow> int" where
  "round_half_even x =
     (let f = \<lfloor>x\<rfloor>; d = x - of_int f
      in if d < 1 / 2 then f else if 1 / 2 < d then f + 1 else if even f then f else f + 1)"

definition pow2 :: "int \<Rightarrow> rat" where
  "pow2 e = (if 0 \<le> e then 2 ^ nat e else 1 / 2 ^ nat (- e))"

definition binary64 :: "rat \<Rightarrow> rat" where
  "binary64 x =
     (if x = 0 then 0
      else let (a, b) = quotient_of \<bar>x\<bar>;
               k = bitlen a - bitlen b - 53;
               e = (if 2 ^ 53 \<le> \<bar>x\<bar> / pow2 k then k + 1 else k)
           in sgn x * of_int (round_half_even (\<bar>x\<bar> / pow2 e)) * pow2 e)"

text \<open>\<open>int(x)\<close> on a float truncates towards zero.\<close>

definition py_int :: "rat \<Rightarrow> int" where
  "py_int x = (if 0 \<le> x then \<lfloor>x\<rfloor> else \<lceil>x\<rceil>)"

text \<open>\<open>n * r\<close> for an integer \<open>n\<close> and a float \<open>r\<close>; \<open>sum(values)\<close> from the left.\<close>

definition py_mul :: "int \<Rightarrow> rat \<Rightarrow> rat" where
  "py_mul n r = binary64 (binary64 (of_int n) * r)"

definition py_sum :: "rat list \<Rightarrow> rat" where
  "py_sum vs = fold (\<lambda>v acc. binary64 (acc + v)) vs 0"

definition default_sampling_ratios :: "(string \<times> rat) list" where
  "default_sampling_ratios =
     [(''new'', binary64 (65 / 100)), (''top_year'', binary64 (25 / 100)), (''best'', binary64 (10 / 100))]"

text \<open>
  The validation of \<open>sampling_ratios\<close>: a missing or empty dictionary gives the default, a
  total off by more than the tolerance is normalised. A dictionary is the list of its items
  in insertion order.
\<close>

definition init_sampling_ratios :: "(string \<times> rat) list option \<Rightarrow> py_error + (string \<times> rat) list" where
  "init_sampling_ratios sampling_ratios =
     (let ratios = (case sampling_ratios of None \<Rightarrow> default_sampling_ratios
                    | Some rs \<Rightarrow> (if rs = [] then default_sampling_ratios else rs));
          total_ratio = py_sum (map snd ratios)
      in if binary64 (1 / 100) < \<bar>binary64 (total_ratio - 1)\<bar>
         then (if total_ratio = 0 then Inl ZeroDivisionError
               else Inr (map (\<lambda>kv. (fst kv, binary64 (snd kv / total_ratio))) ratios))
         else Inr ratios)"

text \<open>
  The loop over \<open>sorted(self.sampling_ratios.keys())\<close>, here over the items sorted by key; the
  last one takes \<open>remaining_count\<close>.
\<close>

fun partition_loop :: "int \<Rightarrow> (string \<times> rat) list \<Rightarrow> int \<Rightarrow> (string \<times> int) list" where
  "partition_loop max_posts [] remaining_count = []"
| "partition_loop max_posts [kv] remaining_count = [(fst kv, remaining_count)]"
| "partition_loop max_posts (kv # rest) remaining_count =
     (let count = py_int (py_mul max_posts (snd kv))
      in (fst kv, count) # partition_loop max_posts rest (remaining_count - count))"

definition sampling_counts :: "int \<Rightarrow> (string \<times> rat) list \<Rightarrow> (string \<times> int) list" where
  "sampling_counts max_posts sampling_ratios =
     partition_loop max_posts (sort_key fst sampling_ratios) max_posts"

text \<open>The ratios of the scenario \<open>{new: 0.65, top: 0.25, best: 0.10}\<close>.\<close>

definition scenario_ratios :: "(string \<times> rat) list" where
  "scenario_ratios =
     [(''new'', binary64 (65 / 100)), (''top'', binary64 (25 / 100)), (''best'', binary64 (10 / 100))]"



section \<open>Properties of the comment filter\<close>

lemma py_in_iff: "py_in sub s \<longleftrightarrow> (\<exists>pre post. s = pre @ sub @ post)"
proof (induction s)
  case Nil
  then show ?case by auto
next
  case (Cons c s)
  have "(\<exists>pre post. c # s = pre @ sub @ post) \<longleftrightarrow> sublist sub (c # s)"
    by (auto simp: sublist_def)
  also have "\<dots> \<longleftrightarrow> prefix sub (c # s) \<or> sublist sub s"
    by (rule sublist_Cons_right)
  also have "\<dots> \<longleftrightarrow> prefix sub (c # s) \<or> (\<exists>pre post. s = pre @ sub @ post)"
    by (auto simp: sublist_def)
  finally show ?case using Cons.IH by simp
qed

lemma py_in_lower_iff:
  "py_in phrase (lower b) \<longleftrightarrow> (\<exists>pre mid post. b = pre @ mid @ post \<and> lower mid = phrase)"
proof
  assume "py_in phrase (lower b)"
  then obtain p q where pq: "map lower_char b = p @ phrase @ q"
    by (auto simp: py_in_iff lower_def)
  define pre where "pre = take (length p) b"
  define mid where "mid = take (length phrase) (drop (length p) b)"
  define post where "post = drop (length phrase) (drop (length p) b)"
  have "mid @ post = drop (length p) b"
    unfolding mid_def post_def by (rule append_take_drop_id)
  then have "b = pre @ mid @ post"
    unfolding pre_def by simp
  moreover have "map lower_char mid = take (length phrase) (drop (length p) (map lower_char b))"
    by (simp add: mid_def take_map drop_map)
  then have "lower mid = phrase"
    by (simp add: pq lower_def)
  ultimately show "\<exists>pre mid post. b = pre @ mid @ post \<and> lower mid = phrase"
    by blast
next
  assume "\<exists>pre mid post. b = pre @ mid @ post \<and> lower mid = phrase"
  then obtain pre mid post where "b = pre @ mid @ post" "lower mid = phrase"
    by blast
  then have "lower b = lower pre @ phrase @ lower post"
    by (simp add: lower_def)
  then show "py_in phrase (lower b)"
    unfolding py_in_iff by blast
qed

lemma py_in_body_lower: "phrase \<noteq> [] \<Longrightarrow> py_in phrase (body_lower body) \<longleftrightarrow> contains_ci phrase body"
proof (cases body)
  case None
  assume "phrase \<noteq> []"
  then show ?thesis using None
    by (auto simp: body_lower_def contains_ci_def lower_def)
next
  case (Some b)
  have "body_lower body = lower b"
    using Some by (simp add: body_lower_def lower_def)
  then show ?thesis using Some
    by (simp add: py_in_lower_iff contains_ci_def)
qed


text \<open>
  C6. The flat-payload filter is true exactly for the moderation identity, the deletion
  sentinel as author, or a body that contains one of the three phrases in any letter case;
  the nested-payload filter knows the moderation identity and the two self-disclosure
  phrases only.
\<close>

theorem should_filter_exact:
  "(is_bot_or_mod_comment_or_deleted author body \<longleftrightarrow> should_filter_spec author body)
   \<and> (is_bot_or_mod_comment author body \<longleftrightarrow>
        (author = ''AutoModerator'' \<or> contains_ci ''i am a bot'' body \<or> contains_ci ''moderator'' body))"
  by (simp add: is_bot_or_mod_comment_or_deleted_def is_bot_or_mod_comment_def
      should_filter_spec_def py_in_body_lower)

text \<open>
  C6, as stated, fails on the nested-payload filter: a comment whose author is the deletion
  sentinel is kept.
\<close>

theorem should_filter_nested_counterexample:
  "is_bot_or_mod_comment ''[deleted]'' (Some ''hello'')
     \<noteq> should_filter_spec ''[deleted]'' (Some ''hello'')"
  by (simp add: is_bot_or_mod_comment_def should_filter_spec_def body_lower_def lower_def
      lower_char_def)

section \<open>Properties of the comment trees\<close>

lemma count_comments_nodes: "count_comments cs = length (forest_nodes cs)"
  unfolding forest_nodes_def
  by (induction cs rule: count_comments.induct) auto

lemma counts_ok_nodes:
  "counts_ok c \<Longrightarrow> n \<in> set (all_nodes c) \<Longrightarrow> reply_count n = length (replies n)"
proof (induction c arbitrary: n rule: all_nodes.induct)
  case (1 a t s ct rs rc)
  then show ?case by (auto simp: list_all_iff)
qed

lemma counts_ok_forest:
  "list_all counts_ok cs \<Longrightarrow> n \<in> set (forest_nodes cs) \<Longrightarrow> reply_count n = length (replies n)"
  by (auto simp: forest_nodes_def list_all_iff dest: counts_ok_nodes)

lemma parse_comment_counts_ok: "parse_comment strftime raw = Some c \<Longrightarrow> counts_ok c"
proof (induction strftime raw arbitrary: c rule: parse_comment.induct)
  case (1 strftime k a b sc utc children)
  then show ?case
    by (auto simp: Let_def list_all_iff List.map_filter_def split: if_splits)
qed

lemma parse_comments_counts_ok: "list_all counts_ok (parse_comments strftime raws)"
  by (auto simp: parse_comments_def list_all_iff List.map_filter_def dest: parse_comment_counts_ok)

lemma update_counts_ok: "counts_ok (update_counts c)"
  by (induction c rule: update_counts.induct) (auto simp: list_all_iff)

text \<open>
  The links after the second loop, in closed form: \<open>parent_key\<close> is the key a record hangs
  under, \<open>is_root_entry\<close> says that it goes to the root list.
\<close>

definition is_root_entry :: "(string \<times> entry) list \<Rightarrow> entry \<Rightarrow> bool" where
  "is_root_entry d e =
     (startswith (e_parent_id e) ''t3_'' \<or>
      (startswith (e_parent_id e) ''t1_'' \<and> drop 3 (e_parent_id e) \<notin> set (map fst d)))"

definition parent_key :: "(string \<times> entry) list \<Rightarrow> entry \<Rightarrow> string option" where
  "parent_key d e =
     (if \<not> startswith (e_parent_id e) ''t3_'' \<and> startswith (e_parent_id e) ''t1_''
         \<and> drop 3 (e_parent_id e) \<in> set (map fst d)
      then Some (drop 3 (e_parent_id e)) else None)"

lemma fold_link_roots:
  "root_comments (fold (link_one d) xs h) =
     root_comments h @ map fst (filter (\<lambda>x. is_root_entry d (snd x)) xs)"
  by (induction xs arbitrary: h) (auto simp: link_one_def is_root_entry_def Let_def)

lemma fold_link_replies:
  "replies_of (fold (link_one d) xs h) p =
     replies_of h p @ map fst (filter (\<lambda>x. parent_key d (snd x) = Some p) xs)"
  by (induction xs arbitrary: h) (auto simp: link_one_def parent_key_def Let_def)

lemma root_comments_link_all:
  "root_comments (link_all d) = map fst (filter (\<lambda>x. is_root_entry d (snd x)) d)"
  by (simp add: link_all_def fold_link_roots)

lemma replies_of_link_all:
  "replies_of (link_all d) p = map fst (filter (\<lambda>x. parent_key d (snd x) = Some p) d)"
  by (simp add: link_all_def fold_link_replies)

lemma distinct_create_nodes: "distinct (map fst d) \<Longrightarrow> distinct (map fst (create_nodes cs d))"
  by (induction cs arbitrary: d) (auto simp: distinct_update)

lemma those_eq_Some_map: "(\<And>x. x \<in> set xs \<Longrightarrow> f x \<noteq> None) \<Longrightarrow> those (map f xs) = Some (map (\<lambda>x. the (f x)) xs)"
  by (induction xs) (auto split: option.splits)

definition parent_of :: "(string \<times> entry) list \<Rightarrow> string \<Rightarrow> string option" where
  "parent_of d cid = (case map_of d cid of None \<Rightarrow> None | Some e \<Rightarrow> parent_key d e)"

fun level :: "(string \<times> entry) list \<Rightarrow> nat \<Rightarrow> string \<Rightarrow> bool" where
  "level d 0 cid = (cid \<in> set (map fst d) \<and> parent_of d cid = None)"
| "level d (Suc k) cid =
     (cid \<in> set (map fst d) \<and> (case parent_of d cid of None \<Rightarrow> False | Some p \<Rightarrow> level d k p))"

lemma level_unique: "level d j cid \<Longrightarrow> level d k cid \<Longrightarrow> j = k"
proof (induction j arbitrary: k cid)
  case 0
  then show ?case by (cases k) auto
next
  case (Suc j)
  then show ?case by (cases k) (auto split: option.splits)
qed

lemma level_chain:
  "level d k cid \<Longrightarrow> \<exists>A. A \<subseteq> set (map fst d) \<and> card A = Suc k \<and> (\<forall>x\<in>A. \<exists>j\<le>k. level d j x)"
proof (induction k arbitrary: cid)
  case 0
  then have "{cid} \<subseteq> set (map fst d) \<and> card {cid} = Suc 0 \<and> (\<forall>x\<in>{cid}. \<exists>j\<le>0. level d j x)"
    by auto
  then show ?case by blast
next
  case (Suc k)
  then obtain p where p: "parent_of d cid = Some p" "level d k p" and cid: "cid \<in> set (map fst d)"
    by (auto split: option.splits)
  from Suc.IH [OF p(2)] obtain A where A: "A \<subseteq> set (map fst d)" "card A = Suc k"
      "\<forall>x\<in>A. \<exists>j\<le>k. level d j x"
    by blast
  have fin: "finite A" using A(1) by (rule finite_subset) simp
  have "cid \<notin> A"
  proof
    assume "cid \<in> A"
    then obtain j where j: "j \<le> k" "level d j cid" using A(3) by blast
    have "j = Suc k" using j(2) Suc.prems by (rule level_unique)
    with j(1) show False by simp
  qed
  then have "card (insert cid A) = Suc (Suc k)"
    using fin A(2) by simp
  moreover have "insert cid A \<subseteq> set (map fst d)" using A(1) cid by simp
  moreover have "\<forall>x\<in>insert cid A. \<exists>j\<le>Suc k. level d j x"
  proof
    fix x assume "x \<in> insert cid A"
    then consider "x = cid" | "x \<in> A" by blast
    then show "\<exists>j\<le>Suc k. level d j x"
    proof cases
      case 1
      then show ?thesis using Suc.prems by blast
    next
      case 2
      then obtain j where "j \<le> k" "level d j x" using A(3) by blast
      then show ?thesis using le_SucI by blast
    qed
  qed
  ultimately show ?case by blast
qed

lemma level_bound:
  assumes "level d k cid"
  shows "k < length d"
proof -
  from level_chain [OF assms] obtain A where A: "A \<subseteq> set (map fst d)" "card A = Suc k"
    by (elim exE conjE)
  have "finite (set (map fst d))" by (rule finite_set)
  then have "card A \<le> card (set (map fst d))"
    using A(1) by (rule card_mono)
  also have "\<dots> \<le> length (map fst d)" by (rule card_length)
  finally show ?thesis using A(2) by simp
qed

lemma reply_level:
  assumes "distinct (map fst d)" "c \<in> set (replies_of (link_all d) p)" "level d k p"
  shows "level d (Suc k) c"
proof -
  from assms(2) obtain e where e: "(c, e) \<in> set d" "parent_key d e = Some p"
    by (auto simp: replies_of_link_all)
  with assms(1) have "map_of d c = Some e" by simp
  with e assms(3) show ?thesis
    by (auto simp: parent_of_def intro: rev_image_eqI)
qed

lemma root_level:
  assumes "distinct (map fst d)" "c \<in> set (root_comments (link_all d))"
  shows "level d 0 c"
proof -
  from assms(2) obtain e where e: "(c, e) \<in> set d" "is_root_entry d e"
    by (auto simp: root_comments_link_all)
  with assms(1) have "map_of d c = Some e" by simp
  with e show ?thesis
    by (auto simp: parent_of_def is_root_entry_def parent_key_def intro: rev_image_eqI)
qed

lemma readout_total:
  assumes "distinct (map fst d)"
  shows "level d k cid \<Longrightarrow> length d \<le> k + n \<Longrightarrow> readout n d (link_all d) cid \<noteq> None"
proof (induction n arbitrary: k cid)
  case 0
  then show ?case using level_bound by fastforce
next
  case (Suc n)
  from Suc.prems(1) have "cid \<in> set (map fst d)" by (cases k) auto
  then obtain e where e: "map_of d cid = Some e"
    by (metis domD dom_map_of_conv_image_fst set_map)
  have "\<And>c. c \<in> set (replies_of (link_all d) cid) \<Longrightarrow> readout n d (link_all d) c \<noteq> None"
  proof -
    fix c assume "c \<in> set (replies_of (link_all d) cid)"
    then have "level d (Suc k) c" using reply_level assms Suc.prems(1) by blast
    moreover have "length d \<le> Suc k + n" using Suc.prems(2) by simp
    ultimately show "readout n d (link_all d) c \<noteq> None" by (rule Suc.IH)
  qed
  then have "those (map (readout n d (link_all d)) (replies_of (link_all d) cid)) \<noteq> None"
    by (simp add: those_eq_Some_map)
  with e show ?case by (auto split: option.splits)
qed

lemma build_comment_tree_total: "build_comment_tree flat pid \<noteq> None"
proof -
  let ?d = "create_nodes flat []"
  have dist: "distinct (map fst ?d)" by (rule distinct_create_nodes) simp
  have "\<And>c. c \<in> set (root_comments (link_all ?d)) \<Longrightarrow> readout (length ?d) ?d (link_all ?d) c \<noteq> None"
    using readout_total [OF dist] root_level [OF dist] by fastforce
  then have "those (map (readout (length ?d) ?d (link_all ?d)) (root_comments (link_all ?d))) \<noteq> None"
    by (simp add: those_eq_Some_map)
  then show ?thesis
    by (auto simp: build_comment_tree_def Let_def split: option.splits)
qed


lemma build_comment_tree_counts_ok:
  "build_comment_tree flat pid = Some roots \<Longrightarrow> list_all counts_ok roots"
  by (auto simp: build_comment_tree_def Let_def list_all_iff update_counts_ok split: option.splits)

text \<open>
  C4. \<open>count_comments\<close> is the number of nodes of the forest, every node that the nested
  parser returns carries the number of its direct replies, and so does every node of the
  forest that the flat builder returns (which it always does).
\<close>

theorem comment_count_consistency:
  "count_comments cs = length (forest_nodes cs)
   \<and> (\<forall>n\<in>set (forest_nodes (parse_comments strftime raws)). reply_count n = length (replies n))
   \<and> (\<exists>roots. build_comment_tree flat pid = Some roots
        \<and> (\<forall>n\<in>set (forest_nodes roots). reply_count n = length (replies n)))"
proof -
  obtain roots where r: "build_comment_tree flat pid = Some roots"
    using build_comment_tree_total [of flat pid] by auto
  then have "\<forall>n\<in>set (forest_nodes roots). reply_count n = length (replies n)"
    using build_comment_tree_counts_ok counts_ok_forest by blast
  with r show ?thesis
    using count_comments_nodes parse_comments_counts_ok counts_ok_forest by blast
qed

subsection \<open>Provenance of the nodes of the flat builder\<close>

definition stems_from :: "flat_comment \<Rightarrow> comment \<Rightarrow> bool" where
  "stems_from c n \<longleftrightarrow>
     com_author n = fc_author c \<and> com_text n = fc_text c \<and> com_score n = fc_score c
     \<and> com_created_time n = fc_created_time c"

lemma map_of_create_nodes_other:
  "\<forall>c\<in>set cs. comment_id c \<noteq> k \<Longrightarrow> map_of (create_nodes cs d) k = map_of d k"
  by (induction cs arbitrary: d) (auto simp: update_conv')

lemma map_of_create_nodes_cases:
  "map_of (create_nodes cs d) k = Some e \<Longrightarrow>
     map_of d k = Some e \<or> (\<exists>c\<in>set cs. comment_id c = k \<and> e = entry_of c)"
proof (induction cs arbitrary: d)
  case Nil
  then show ?case by simp
next
  case (Cons c cs)
  show ?case
  proof (cases "comment_id c = []")
    case True
    then show ?thesis using Cons by auto
  next
    case False
    then have "map_of (create_nodes cs (AList.update (comment_id c) (entry_of c) d)) k = Some e"
      using Cons.prems by simp
    from Cons.IH [OF this] show ?thesis
      by (auto simp: update_conv' split: if_splits)
  qed
qed

lemma map_of_create_nodes_unique:
  assumes "b \<in> set cs" "comment_id b \<noteq> []" "\<forall>c\<in>set cs. comment_id c = comment_id b \<longrightarrow> c = b"
  shows "map_of (create_nodes cs d) (comment_id b) = Some (entry_of b)"
  using assms
proof (induction cs arbitrary: d)
  case Nil
  then show ?case by simp
next
  case (Cons c cs)
  show ?case
  proof (cases "b \<in> set cs")
    case True
    then show ?thesis using Cons by auto
  next
    case False
    then have cb: "c = b" using Cons.prems by simp
    have "\<forall>x\<in>set cs. comment_id x \<noteq> comment_id b"
      using False Cons.prems(3) by auto
    then show ?thesis using cb Cons.prems(2)
      by (simp add: map_of_create_nodes_other update_conv')
  qed
qed

lemma key_create_nodes:
  assumes "k \<in> set (map fst (create_nodes cs []))"
  shows "k \<in> comment_id ` set cs"
proof -
  from assms obtain e where "map_of (create_nodes cs []) k = Some e"
    by (metis domD dom_map_of_conv_image_fst set_map)
  from map_of_create_nodes_cases [OF this] show ?thesis by auto
qed

lemma in_links_entry:
  assumes "distinct (map fst d)"
    and "k \<in> set (root_comments (link_all d)) \<or> k \<in> set (replies_of (link_all d) p)"
  shows "\<exists>e. map_of d k = Some e \<and> (startswith (e_parent_id e) ''t3_'' \<or> startswith (e_parent_id e) ''t1_'')"
proof -
  from assms(2) obtain e where e: "(k, e) \<in> set d" "is_root_entry d e \<or> parent_key d e = Some p"
    by (auto simp: root_comments_link_all replies_of_link_all)
  from e(1) assms(1) have "map_of d k = Some e" by simp
  moreover from e(2) have "startswith (e_parent_id e) ''t3_'' \<or> startswith (e_parent_id e) ''t1_''"
    by (auto simp: is_root_entry_def parent_key_def split: if_splits)
  ultimately show ?thesis by blast
qed

lemma readout_root:
  "readout n d h cid = Some t \<Longrightarrow> map_of d cid = Some e \<Longrightarrow>
     com_author t = e_author e \<and> com_text t = e_text e \<and> com_score t = e_score e
     \<and> com_created_time t = e_created_time e"
  by (cases n) (auto split: option.splits)

lemma update_counts_data:
  "com_author (update_counts t) = com_author t \<and> com_text (update_counts t) = com_text t
   \<and> com_score (update_counts t) = com_score t \<and> com_created_time (update_counts t) = com_created_time t"
  by (cases t) simp

lemma those_map_Some:
  "those (map f xs) = Some ys \<Longrightarrow> ys = map (\<lambda>x. the (f x)) xs \<and> (\<forall>x\<in>set xs. f x \<noteq> None)"
  by (induction xs arbitrary: ys) (auto split: option.splits)

lemma promoted_root:
  assumes "b \<in> set flat" "comment_id b \<noteq> []"
    and "\<forall>c\<in>set flat. comment_id c = comment_id b \<longrightarrow> c = b"
    and "parent_id b = ''t1_'' @ a" "a \<notin> comment_id ` set flat"
  shows "comment_id b \<in> set (root_comments (link_all (create_nodes flat [])))"
proof -
  let ?d = "create_nodes flat []"
  have m: "map_of ?d (comment_id b) = Some (entry_of b)"
    using assms(1,2,3) by (rule map_of_create_nodes_unique)
  then have mem: "(comment_id b, entry_of b) \<in> set ?d" by (rule map_of_SomeD)
  have "a \<notin> set (map fst ?d)" using assms(5) key_create_nodes by blast
  then have "is_root_entry ?d (entry_of b)"
    using assms(4) by (simp add: is_root_entry_def entry_of_def startswith_def)
  with mem show ?thesis
    by (force simp: root_comments_link_all)
qed


definition same_data :: "entry \<Rightarrow> comment \<Rightarrow> bool" where
  "same_data e n \<longleftrightarrow>
     com_author n = e_author e \<and> com_text n = e_text e \<and> com_score n = e_score e
     \<and> com_created_time n = e_created_time e"

lemma stems_from_entry: "stems_from c n = same_data (entry_of c) n"
  by (simp add: stems_from_def same_data_def entry_of_def)

lemma readout_nodes:
  "readout n d h cid = Some t \<Longrightarrow> x \<in> set (all_nodes t) \<Longrightarrow>
     \<exists>k e. (k = cid \<or> (\<exists>p. k \<in> set (replies_of h p))) \<and> map_of d k = Some e \<and> same_data e x"
proof (induction n arbitrary: cid t x)
  case 0
  then show ?case by simp
next
  case (Suc n)
  from Suc.prems(1) obtain e rs where e: "map_of d cid = Some e"
    and rs: "those (map (readout n d h) (replies_of h cid)) = Some rs"
    and t: "t = Comment (e_author e) (e_text e) (e_score e) (e_created_time e) rs 0"
    by (auto split: option.splits)
  from Suc.prems(2) t consider "x = t" | r where "r \<in> set rs" "x \<in> set (all_nodes r)"
    by auto
  then show ?case
  proof cases
    case 1
    then have "same_data e x" using t by (simp add: same_data_def)
    with e show ?thesis by blast
  next
    case 2
    from those_map_Some [OF rs] 2(1) obtain c where c: "c \<in> set (replies_of h cid)"
      "readout n d h c \<noteq> None" "r = the (readout n d h c)"
      by auto
    then have "readout n d h c = Some r" by auto
    from Suc.IH [OF this 2(2)] c(1) show ?thesis by blast
  qed
qed

lemma update_counts_nodes:
  "x \<in> set (all_nodes (update_counts t)) \<Longrightarrow> \<exists>y\<in>set (all_nodes t). \<forall>e. same_data e x = same_data e y"
proof (induction t arbitrary: x rule: update_counts.induct)
  case (1 a tx s ct rs rc)
  from "1.prems" consider "x = update_counts (Comment a tx s ct rs rc)"
    | r where "r \<in> set rs" "x \<in> set (all_nodes (update_counts r))"
    by auto
  then show ?case
  proof cases
    case 1
    then show ?thesis by (auto simp: same_data_def)
  next
    case 2
    from "1.IH" [OF 2] obtain y where "y \<in> set (all_nodes r)" "\<forall>e. same_data e x = same_data e y"
      by blast
    with 2(1) show ?thesis by auto
  qed
qed

lemma build_comment_tree_nodes:
  assumes "build_comment_tree flat pid = Some roots" "x \<in> set (forest_nodes roots)"
  shows "\<exists>k e. (k \<in> set (root_comments (link_all (create_nodes flat [])))
                 \<or> (\<exists>p. k \<in> set (replies_of (link_all (create_nodes flat [])) p)))
              \<and> map_of (create_nodes flat []) k = Some e \<and> same_data e x"
proof -
  let ?d = "create_nodes flat []"
  let ?h = "link_all ?d"
  from assms(1) obtain ts where ts: "those (map (readout (length ?d) ?d ?h) (root_comments ?h)) = Some ts"
    and roots: "roots = map update_counts ts"
    by (auto simp: build_comment_tree_def Let_def split: option.splits)
  from assms(2) roots obtain t where t: "t \<in> set ts" "x \<in> set (all_nodes (update_counts t))"
    by (auto simp: forest_nodes_def)
  from those_map_Some [OF ts] t(1) obtain c where c: "c \<in> set (root_comments ?h)"
    "readout (length ?d) ?d ?h c \<noteq> None" "t = the (readout (length ?d) ?d ?h c)"
    by auto
  then have r: "readout (length ?d) ?d ?h c = Some t" by auto
  from update_counts_nodes [OF t(2)] obtain y where y: "y \<in> set (all_nodes t)"
    "\<forall>e. same_data e x = same_data e y"
    by blast
  from readout_nodes [OF r y(1)] obtain k e where
    "k = c \<or> (\<exists>p. k \<in> set (replies_of ?h p))" "map_of ?d k = Some e" "same_data e y"
    by blast
  with c(1) y(2) show ?thesis by blast
qed

subsection \<open>Concrete inputs\<close>

definition ex_strftime :: "int \<Rightarrow> string" where
  "ex_strftime ts = ''2024-01-01 00:00:00''"

definition ex_forest :: "comment list" where
  "ex_forest = [Comment ''ann'' ''first'' 3 ''N/A'' [Comment ''bob'' ''second'' 1 ''N/A'' [] 0] 1]"

definition ex_raws :: "raw_comment list" where
  "ex_raws = [RawComment ''t1'' (Some ''ann'') (Some ''first'') 3 0
                [RawComment ''t1'' (Some ''bob'') (Some ''second'') 1 0 []]]"

definition ex_b :: flat_comment where
  "ex_b = \<lparr> fc_author = ''bob'', fc_text = ''second'', fc_score = 1, fc_created_time = ''N/A'',
            comment_id = ''b1'', parent_id = ''t1_a1'' \<rparr>"

definition ex_c :: flat_comment where
  "ex_c = \<lparr> fc_author = ''cat'', fc_text = ''third'', fc_score = 2, fc_created_time = ''N/A'',
            comment_id = ''c1'', parent_id = ''t1_b1'' \<rparr>"

definition ex_m :: flat_comment where
  "ex_m = \<lparr> fc_author = ''mal'', fc_text = ''fourth'', fc_score = 5, fc_created_time = ''N/A'',
            comment_id = ''m1'', parent_id = '''' \<rparr>"

definition ex_flat :: "flat_comment list" where
  "ex_flat = [ex_c, ex_b, ex_m]"

definition ex_roots :: "comment list" where
  "ex_roots = [Comment ''bob'' ''second'' 1 ''N/A'' [Comment ''cat'' ''third'' 2 ''N/A'' [] 0] 1]"

lemma ex_build: "build_comment_tree ex_flat ''p1'' = Some ex_roots"
  by (simp add: build_comment_tree_def ex_flat_def ex_b_def ex_c_def ex_m_def ex_roots_def entry_of_def
      link_all_def link_one_def startswith_def Let_def)

text \<open>
  C5. A kept record \<open>b\<close> (the only one with its non-empty id) whose parent pointer names a
  comment \<open>a\<close> that is not among the kept records, because the filter removed it, is
  appended to the root list, and the forest returned has a root-level node with its data.
\<close>

theorem filtered_parent_promotion:
  assumes "b \<in> set flat" and "comment_id b \<noteq> []"
    and "\<forall>c\<in>set flat. comment_id c = comment_id b \<longrightarrow> c = b"
    and "parent_id b = ''t1_'' @ a" and "a \<notin> comment_id ` set flat"
  shows "comment_id b \<in> set (root_comments (link_all (create_nodes flat [])))
         \<and> (\<exists>roots n. build_comment_tree flat post_id = Some roots \<and> n \<in> set roots \<and> stems_from b n)"
proof -
  let ?d = "create_nodes flat []"
  let ?h = "link_all ?d"
  have root: "comment_id b \<in> set (root_comments ?h)"
    using assms by (rule promoted_root)
  have m: "map_of ?d (comment_id b) = Some (entry_of b)"
    using assms(1,2,3) by (rule map_of_create_nodes_unique)
  obtain roots where roots: "build_comment_tree flat post_id = Some roots"
    using build_comment_tree_total [of flat post_id] by auto
  then obtain ts where ts: "those (map (readout (length ?d) ?d ?h) (root_comments ?h)) = Some ts"
    and r: "roots = map update_counts ts"
    by (auto simp: build_comment_tree_def Let_def split: option.splits)
  from those_map_Some [OF ts] root obtain t where t: "readout (length ?d) ?d ?h (comment_id b) = Some t"
    "t \<in> set ts"
    by force
  have "same_data (entry_of b) t"
    using readout_root [OF t(1) m] by (simp add: same_data_def)
  then have "stems_from b (update_counts t)"
    using update_counts_data [of t] by (simp add: stems_from_entry same_data_def)
  moreover have "update_counts t \<in> set roots" using t(2) r by simp
  ultimately show ?thesis using root roots by blast
qed

text \<open>C5 at the flat list \<open>ex_flat\<close>, whose record \<open>ex_b\<close> replies to the absent \<open>a1\<close>.\<close>

theorem filtered_parent_promotion_witness:
  "ex_b \<in> set ex_flat \<and> comment_id ex_b \<noteq> [] \<and> parent_id ex_b = ''t1_'' @ ''a1''
   \<and> ''a1'' \<notin> comment_id ` set ex_flat
   \<and> comment_id ex_b \<in> set (root_comments (link_all (create_nodes ex_flat [])))
   \<and> (\<exists>roots n. build_comment_tree ex_flat ''p1'' = Some roots \<and> n \<in> set roots \<and> stems_from ex_b n)"
proof -
  have h1: "ex_b \<in> set ex_flat" by (simp add: ex_flat_def)
  have h2: "comment_id ex_b \<noteq> []" by (simp add: ex_b_def)
  have h3: "\<forall>c\<in>set ex_flat. comment_id c = comment_id ex_b \<longrightarrow> c = ex_b"
    by (simp add: ex_flat_def ex_b_def ex_c_def ex_m_def)
  have h4: "parent_id ex_b = ''t1_'' @ ''a1''" by (simp add: ex_b_def)
  have h5: "''a1'' \<notin> comment_id ` set ex_flat"
    by (simp add: ex_flat_def ex_b_def ex_c_def ex_m_def)
  from filtered_parent_promotion [OF h1 h2 h3 h4 h5, of "''p1''"] h1 h2 h4 h5 show ?thesis
    by blast
qed

text \<open>
  C10. A kept record whose parent pointer starts with neither \<open>t3_\<close> nor \<open>t1_\<close> is in no
  list after the linking loop, neither the root list nor any \<open>replies\<close> list, and every
  node of the forest returned stems from some other record.
\<close>

theorem malformed_parent_dropped:
  assumes "b \<in> set flat"
    and "\<forall>c\<in>set flat. comment_id c = comment_id b \<longrightarrow> c = b"
    and "\<not> startswith (parent_id b) ''t3_''" and "\<not> startswith (parent_id b) ''t1_''"
  shows "comment_id b \<notin> set (root_comments (link_all (create_nodes flat [])))
         \<and> (\<forall>p. comment_id b \<notin> set (replies_of (link_all (create_nodes flat [])) p))
         \<and> (\<exists>roots. build_comment_tree flat post_id = Some roots
              \<and> (\<forall>n\<in>set (forest_nodes roots). \<exists>c\<in>set flat. comment_id c \<noteq> comment_id b \<and> stems_from c n))"
proof -
  let ?d = "create_nodes flat []"
  let ?h = "link_all ?d"
  have dist: "distinct (map fst ?d)" by (rule distinct_create_nodes) simp
  have notin: "\<not> (comment_id b \<in> set (root_comments ?h) \<or> comment_id b \<in> set (replies_of ?h p))" for p
  proof
    assume "comment_id b \<in> set (root_comments ?h) \<or> comment_id b \<in> set (replies_of ?h p)"
    from in_links_entry [OF dist this] obtain e where e: "map_of ?d (comment_id b) = Some e"
      "startswith (e_parent_id e) ''t3_'' \<or> startswith (e_parent_id e) ''t1_''"
      by blast
    from map_of_create_nodes_cases [OF e(1)] obtain c where "c \<in> set flat" "comment_id c = comment_id b"
      "e = entry_of c"
      by auto
    with assms(2) have "e = entry_of b" by auto
    with e(2) assms(3,4) show False by (simp add: entry_of_def)
  qed
  obtain roots where roots: "build_comment_tree flat post_id = Some roots"
    using build_comment_tree_total [of flat post_id] by auto
  have "\<exists>c\<in>set flat. comment_id c \<noteq> comment_id b \<and> stems_from c n" if "n \<in> set (forest_nodes roots)" for n
  proof -
    from build_comment_tree_nodes [OF roots that] obtain k e where
      k: "k \<in> set (root_comments ?h) \<or> (\<exists>p. k \<in> set (replies_of ?h p))"
      and e: "map_of ?d k = Some e" "same_data e n"
      by blast
    from k notin have "k \<noteq> comment_id b" by blast
    moreover from map_of_create_nodes_cases [OF e(1)] obtain c where "c \<in> set flat" "comment_id c = k"
      "e = entry_of c"
      by auto
    ultimately show ?thesis using e(2) by (auto simp: stems_from_entry)
  qed
  with roots notin show ?thesis by blast
qed

text \<open>C10 at the flat list \<open>ex_flat\<close>, whose record \<open>ex_m\<close> has an empty parent pointer.\<close>

theorem malformed_parent_dropped_witness:
  "ex_m \<in> set ex_flat \<and> \<not> startswith (parent_id ex_m) ''t3_'' \<and> \<not> startswith (parent_id ex_m) ''t1_''
   \<and> comment_id ex_m \<notin> set (root_comments (link_all (create_nodes ex_flat [])))
   \<and> (\<exists>roots. build_comment_tree ex_flat ''p1'' = Some roots \<and> forest_nodes roots \<noteq> [])"
proof -
  have h1: "ex_m \<in> set ex_flat" by (simp add: ex_flat_def)
  have h2: "\<forall>c\<in>set ex_flat. comment_id c = comment_id ex_m \<longrightarrow> c = ex_m"
    by (simp add: ex_flat_def ex_b_def ex_c_def ex_m_def)
  have h3: "\<not> startswith (parent_id ex_m) ''t3_''" by (simp add: ex_m_def startswith_def)
  have h4: "\<not> startswith (parent_id ex_m) ''t1_''" by (simp add: ex_m_def startswith_def)
  have "forest_nodes ex_roots \<noteq> []" by (simp add: ex_roots_def forest_nodes_def)
  with malformed_parent_dropped [OF h1 h2 h3 h4, of "''p1''"] h1 h3 h4 ex_build show ?thesis
    by blast
qed

text \<open>C4 at a concrete forest, a concrete nested payload and a concrete flat list.\<close>

theorem comment_count_consistency_witness:
  "count_comments ex_forest = 2
   \<and> hd ex_forest \<in> set (forest_nodes (parse_comments ex_strftime ex_raws))
   \<and> reply_count (hd ex_forest) = length (replies (hd ex_forest))
   \<and> build_comment_tree ex_flat ''p1'' = Some ex_roots
   \<and> hd ex_roots \<in> set (forest_nodes ex_roots)
   \<and> reply_count (hd ex_roots) = length (replies (hd ex_roots))"
proof -
  have a: "length (forest_nodes ex_forest) = 2" by (simp add: forest_nodes_def ex_forest_def)
  have b: "hd ex_forest \<in> set (forest_nodes (parse_comments ex_strftime ex_raws))"
    by (simp add: forest_nodes_def ex_forest_def parse_comments_def ex_raws_def List.map_filter_def
        is_bot_or_mod_comment_def body_lower_def lower_def lower_char_def text_of_body_def convert_time_def)
  have c: "hd ex_roots \<in> set (forest_nodes ex_roots)" by (simp add: forest_nodes_def ex_roots_def)
  from comment_count_consistency [of ex_forest ex_strftime ex_raws ex_flat "''p1''"] a b c ex_build
  show ?thesis by auto
qed

section \<open>Properties of the quota partition\<close>

lemma scenario_counts:
  "init_sampling_ratios (Some scenario_ratios) = Inr scenario_ratios
   \<and> sampling_counts 100 scenario_ratios = [(''best'', 10), (''new'', 65), (''top'', 25)]"
  by code_simp

lemma partition_loop_Cons_total:
  "sum_list (map snd (partition_loop m (kv # rs) rem)) = rem"
proof (induction rs arbitrary: kv rem)
  case Nil
  then show ?case by simp
next
  case (Cons a rs)
  then show ?case by (simp add: Let_def)
qed

lemma partition_loop_total:
  "rs \<noteq> [] \<Longrightarrow> sum_list (map snd (partition_loop m rs rem)) = rem"
  by (cases rs) (simp_all add: partition_loop_Cons_total)

lemma partition_loop_keys: "map fst (partition_loop m rs rem) = map fst rs"
  by (induction m rs rem rule: partition_loop.induct) (auto simp: Let_def)

lemma partition_loop_length: "length (partition_loop m rs rem) = length rs"
  using partition_loop_keys [of m rs rem] by (metis length_map)

lemma partition_loop_nonlast:
  "i < length rs - 1 \<Longrightarrow> snd (partition_loop m rs rem ! i) = py_int (py_mul m (snd (rs ! i)))"
proof (induction m rs rem arbitrary: i rule: partition_loop.induct)
  case (3 m kv v va rem)
  then show ?case by (cases i) (auto simp: Let_def)
qed auto

lemma partition_loop_Cons_last:
  "snd (last (partition_loop m (kv # rs) rem)) =
     rem - sum_list (map snd (butlast (partition_loop m (kv # rs) rem)))"
proof (induction rs arbitrary: kv rem)
  case Nil
  then show ?case by simp
next
  case (Cons a rs)
  have ne: "partition_loop m (a # rs) r \<noteq> []" for r
    using partition_loop_length [of m "a # rs" r] by auto
  show ?case using Cons [of a "rem - py_int (py_mul m (snd kv))"] ne
    by (simp add: Let_def)
qed
lemma init_sampling_ratios_nonempty: "init_sampling_ratios arg = Inr ratios \<Longrightarrow> ratios \<noteq> []"
  by (auto simp: init_sampling_ratios_def Let_def default_sampling_ratios_def
      split: option.splits if_splits)

text \<open>
  C1. For the ratios that the constructor accepts or normalises, whatever they sum to, and
  every \<open>max_posts\<close>: the quotas sum to \<open>max_posts\<close>, they are listed in the sorted order of the
  source names, each source but the last gets \<open>int(max_posts * ratio)\<close> and the last gets the
  remainder; the scenario's ratios pass the validation unchanged and give 10, 65 and 25.
\<close>

theorem quota_partition_exact:
  assumes "init_sampling_ratios arg = Inr ratios"
  shows "sum_list (map snd (sampling_counts max_posts ratios)) = max_posts
   \<and> map fst (sampling_counts max_posts ratios) = map fst (sort_key fst ratios)
   \<and> (\<forall>i. i < length ratios - 1 \<longrightarrow>
         snd (sampling_counts max_posts ratios ! i) = py_int (py_mul max_posts (snd (sort_key fst ratios ! i))))
   \<and> snd (last (sampling_counts max_posts ratios))
       = max_posts - sum_list (map snd (butlast (sampling_counts max_posts ratios)))
   \<and> init_sampling_ratios (Some scenario_ratios) = Inr scenario_ratios
   \<and> sampling_counts 100 scenario_ratios = [(''best'', 10), (''new'', 65), (''top'', 25)]"
proof -
  let ?rs = "sort_key fst ratios"
  have ne: "?rs \<noteq> []"
    using init_sampling_ratios_nonempty [OF assms] by (metis length_sort list.size(3) length_0_conv)
  then obtain kv rest where rs: "?rs = kv # rest" by (cases ?rs) auto
  have "sum_list (map snd (sampling_counts max_posts ratios)) = max_posts"
    unfolding sampling_counts_def using ne by (rule partition_loop_total)
  moreover have "map fst (sampling_counts max_posts ratios) = map fst ?rs"
    unfolding sampling_counts_def by (rule partition_loop_keys)
  moreover have "\<forall>i. i < length ratios - 1 \<longrightarrow>
      snd (sampling_counts max_posts ratios ! i) = py_int (py_mul max_posts (snd (?rs ! i)))"
    unfolding sampling_counts_def using partition_loop_nonlast [of _ ?rs max_posts max_posts]
    by simp
  moreover have "snd (last (sampling_counts max_posts ratios))
       = max_posts - sum_list (map snd (butlast (sampling_counts max_posts ratios)))"
    unfolding sampling_counts_def rs by (rule partition_loop_Cons_last)
  ultimately show ?thesis using scenario_counts by blast
qed

text \<open>C1 at the default ratios and seven posts: 0, 4 and the remaining 3.\<close>

theorem quota_partition_exact_witness:
  "init_sampling_ratios None = Inr default_sampling_ratios
   \<and> sum_list (map snd (sampling_counts 7 default_sampling_ratios)) = 7
   \<and> (1::nat) < length default_sampling_ratios - 1
   \<and> snd (sampling_counts 7 default_sampling_ratios ! 1)
       = py_int (py_mul 7 (snd (sort_key fst default_sampling_ratios ! 1)))"
proof -
  have h: "init_sampling_ratios None = Inr default_sampling_ratios"
    by code_simp
  have l: "(1::nat) < length default_sampling_ratios - 1"
    by (simp add: default_sampling_ratios_def)
  from quota_partition_exact [OF h, of 7] h l show ?thesis
    by blast
qed

end
